theory Spec2Isabelle
  imports Main "HOL-Library.Word" "HOL-Library.Sublist"
begin

unbundle bit_operations_syntax

section \<open>The PDM microphone applet (glasgow/applet/audio/pdm\_mic)\<close>

text \<open>
  The gateware is synchronous logic: every register takes its next value at the clock
  edge, computed from the values before the edge. One clock cycle is one application of a
  step function to the registers and to the inputs sampled in that cycle; combinational
  signals (\<open>m.d.comb\<close>) are outputs of the step. Signals of fixed width are words; all
  registers reset to 0 and each FSM starts in the state declared first.
  The host side (\<open>AudioPDMApplet.interact\<close>) is sequential Python; its loop is a recursive
  function over the results of the successive \<open>iface.read()\<close> calls.
\<close>

subsection \<open>FIFOStreamer\<close>

datatype streamer_state = IDLE | REPORT_OVERRUN | WAIT

text \<open>
  The inputs of the streamer in one cycle: \<open>self.strobe\<close>, \<open>self.fifo.w_rdy\<close> and
  \<open>self.data\<close>, a signal of \<open>width\<close> bits. The width is the length of the word type.
\<close>

record (overloaded) 'w streamer_in =
  strobe :: bool
  w_rdy :: bool
  data :: "'w word"

text \<open>
  \<open>FIFOStreamer.__init__\<close>: \<open>assert width > 0 and width <= 7\<close>. The result is the width
  of \<open>self.data\<close>.
\<close>

datatype elab_error = AssertionError | IndexError

definition FIFOStreamer_init :: "nat \<Rightarrow> elab_error + nat" where
  "FIFOStreamer_init width =
     (if width > 0 \<and> width \<le> 7 then Inr width else Inl AssertionError)"

text \<open>
  \<open>FIFOStreamer.elaborate\<close>. Modelled from the spec: the FIFO (\<open>in_fifo\<close>) is not among
  the sources; its entries are bytes, so \<open>w_data\<close> is an \<open>8 word\<close>. The assignment
  \<open>w_data.eq(self.data)\<close> zero-extends the narrower data signal. The second component is
  the write port in this cycle: \<open>None\<close> when \<open>w_en\<close> is 0, \<open>Some b\<close> when \<open>w_en\<close> is 1
  and \<open>w_data\<close> is \<open>b\<close>.
\<close>

fun FIFOStreamer_step ::
  "streamer_state \<Rightarrow> ('w::len) streamer_in \<Rightarrow> streamer_state \<times> 8 word option" where
  "FIFOStreamer_step IDLE i =
     (if strobe i then
        (if w_rdy i then (WAIT, Some (ucast (data i)))
         else (REPORT_OVERRUN, None))
      else (IDLE, None))"
| "FIFOStreamer_step REPORT_OVERRUN i =
     (if w_rdy i then (IDLE, Some 0xff) else (REPORT_OVERRUN, None))"
| "FIFOStreamer_step WAIT i = (IDLE, None)"

text \<open>The write port, cycle by cycle, over a sequence of inputs.\<close>

fun FIFOStreamer_run ::
  "streamer_state \<Rightarrow> ('w::len) streamer_in list \<Rightarrow> 8 word option list" where
  "FIFOStreamer_run s [] = []"
| "FIFOStreamer_run s (i # is) =
     snd (FIFOStreamer_step s i) # FIFOStreamer_run (fst (FIFOStreamer_step s i)) is"

text \<open>The state reached after a sequence of inputs.\<close>

fun FIFOStreamer_after ::
  "streamer_state \<Rightarrow> ('w::len) streamer_in list \<Rightarrow> streamer_state" where
  "FIFOStreamer_after s [] = s"
| "FIFOStreamer_after s (i # is) = FIFOStreamer_after (fst (FIFOStreamer_step s i)) is"

text \<open>The bytes that enter the queue: the cycles with \<open>w_en\<close> set, in order.\<close>

fun written :: "8 word option list \<Rightarrow> 8 word list" where
  "written [] = []"
| "written (None # ws) = written ws"
| "written (Some b # ws) = b # written ws"

text \<open>No two strobes in consecutive cycles.\<close>

fun strobes_spaced :: "('w::len) streamer_in list \<Rightarrow> bool" where
  "strobes_spaced (a # b # is) = (\<not> (strobe a \<and> strobe b) \<and> strobes_spaced (b # is))"
| "strobes_spaced _ = True"

text \<open>
  What a streamer that wrote one data byte at every strobe would put on the write port.
\<close>

definition one_byte_per_strobe :: "('w::len) streamer_in list \<Rightarrow> 8 word option list" where
  "one_byte_per_strobe is = map (\<lambda>i. if strobe i then Some (ucast (data i)) else None) is"

subsection \<open>PDMCaptureSubtarget\<close>

text \<open>
  \<open>Cat(b0, b1, ...)\<close> puts its first argument in the least significant bit.
\<close>

definition Cat :: "bool list \<Rightarrow> 'a::len word" where
  "Cat bs = horner_sum of_bool 2 bs"

text \<open>
  \<open>target[lo:hi].eq(v)\<close>: the bits \<open>lo\<close> to \<open>hi - 1\<close> of the target take the low bits of
  \<open>v\<close>, the other bits keep their value.
\<close>

definition slice_eq :: "nat \<Rightarrow> nat \<Rightarrow> 'a::len word \<Rightarrow> 'b::len word \<Rightarrow> 'a word" where
  "slice_eq lo hi target v =
     (target AND NOT (push_bit lo (mask (hi - lo))))
       OR push_bit lo (take_bit (hi - lo) (ucast v))"

text \<open>
  Elaboration. \<open>n = len(self.ports.i)\<close>; the streamer is built with width \<open>n * 2\<close>
  (line 75) before the FSM is described; indexing a signal of width \<open>w\<close> at a constant
  \<open>k\<close> raises IndexError unless \<open>k < w\<close>. The result is the streamer's width and the
  bits of \<open>pins_current\<close> that \<open>Cat\<close> reads, in order.
\<close>

definition signal_index :: "nat \<Rightarrow> nat \<Rightarrow> elab_error + nat" where
  "signal_index w k = (if k < w then Inr k else Inl IndexError)"

definition permutation_indices :: "nat list" where
  "permutation_indices = [0, 3, 1, 4, 2, 5]"

fun index_all :: "nat \<Rightarrow> nat list \<Rightarrow> elab_error + nat list" where
  "index_all w [] = Inr []"
| "index_all w (k # ks) =
     (case signal_index w k of
        Inl e \<Rightarrow> Inl e
      | Inr j \<Rightarrow> (case index_all w ks of Inl e \<Rightarrow> Inl e | Inr js \<Rightarrow> Inr (j # js)))"

definition PDMCaptureSubtarget_elaborate :: "nat \<Rightarrow> elab_error + nat \<times> nat list" where
  "PDMCaptureSubtarget_elaborate n =
     (case FIFOStreamer_init (n * 2) of
        Inl e \<Rightarrow> Inl e
      | Inr width \<Rightarrow>
          (case index_all (n * 2) permutation_indices of
             Inl e \<Rightarrow> Inl e
           | Inr js \<Rightarrow> Inr (width, js)))"

text \<open>
  \<open>AudioPDMApplet.add_build_arguments\<close> declares the pin set \<open>i\<close> with \<open>width=3\<close>;
  \<open>build\<close> passes that pin set as \<open>ports.i\<close>. The argument parser that checks the number
  of pins against the declared width is not among the sources; the declared width is
  taken as the number of pins.
\<close>

definition pin_set_i_width :: nat where
  "pin_set_i_width = 3"

text \<open>
  The machine for three channels. Inputs of a cycle: the strobes of the clock generator,
  the synchronised pins and \<open>in_fifo.w_rdy\<close>.
\<close>

datatype capture_fsm = REPORT | WAIT_RISING_EDGE | WAIT_FALLING_EDGE

record capture_in =
  stb_r :: bool
  stb_f :: bool
  pins_i :: "3 word"
  in_fifo_w_rdy :: bool

record capture_state =
  fsm :: capture_fsm
  counter :: "6 word"
  counter_prev :: "6 word"
  pins_current :: "6 word"
  channels :: "6 word"
  streamer :: streamer_state

definition capture_reset :: capture_state where
  "capture_reset =
     \<lparr>fsm = REPORT, counter = 0, counter_prev = 0, pins_current = 0, channels = 0,
      streamer = IDLE\<rparr>"

text \<open>The word that the REPORT state latches into \<open>channels\<close> (line 85).\<close>

definition channel_word :: "6 word \<Rightarrow> 6 word" where
  "channel_word pc =
     Cat [bit pc 0, bit pc 3, bit pc 1, bit pc 4, bit pc 2, bit pc 5]"

text \<open>The synchronous assignments of the sampling FSM (lines 82 to 99).\<close>

definition capture_sync :: "capture_state \<Rightarrow> capture_in \<Rightarrow> capture_state" where
  "capture_sync s i =
     (case fsm s of
        REPORT \<Rightarrow>
          s\<lparr>channels := channel_word (pins_current s),
            counter_prev := counter s,
            fsm := WAIT_RISING_EDGE\<rparr>
      | WAIT_RISING_EDGE \<Rightarrow>
          (if stb_r i then
             s\<lparr>pins_current := slice_eq 0 3 (pins_current s) (pins_i i),
               fsm := WAIT_FALLING_EDGE\<rparr>
           else s)
      | WAIT_FALLING_EDGE \<Rightarrow>
          (if stb_f i then
             s\<lparr>pins_current := slice_eq 3 6 (pins_current s) (pins_i i),
               counter := counter s + 1,
               fsm := REPORT\<rparr>
           else s))"

text \<open>
  The combinational connections (lines 77 to 80): \<open>streamer.data\<close> is \<open>channels\<close> and
  \<open>streamer.strobe\<close> is \<open>clkgen.stb_f\<close>.
\<close>

definition streamer_inputs :: "capture_state \<Rightarrow> capture_in \<Rightarrow> 6 streamer_in" where
  "streamer_inputs s i =
     \<lparr>strobe = stb_f i, w_rdy = in_fifo_w_rdy i, data = channels s\<rparr>"

text \<open>One clock cycle of the subtarget: the new registers and the write port.\<close>

definition PDMCaptureSubtarget_step ::
  "capture_state \<Rightarrow> capture_in \<Rightarrow> capture_state \<times> 8 word option" where
  "PDMCaptureSubtarget_step s i =
     (let r = FIFOStreamer_step (streamer s) (streamer_inputs s i)
      in ((capture_sync s i)\<lparr>streamer := fst r\<rparr>, snd r))"

fun PDMCaptureSubtarget_run :: "capture_state \<Rightarrow> capture_in list \<Rightarrow> 8 word option list" where
  "PDMCaptureSubtarget_run s [] = []"
| "PDMCaptureSubtarget_run s (i # is) =
     snd (PDMCaptureSubtarget_step s i)
       # PDMCaptureSubtarget_run (fst (PDMCaptureSubtarget_step s i)) is"

fun PDMCaptureSubtarget_after :: "capture_state \<Rightarrow> capture_in list \<Rightarrow> capture_state" where
  "PDMCaptureSubtarget_after s [] = s"
| "PDMCaptureSubtarget_after s (i # is) =
     PDMCaptureSubtarget_after (fst (PDMCaptureSubtarget_step s i)) is"


subsection \<open>What the specification says of the sampling machine\<close>

text \<open>
  The interleave in the specification's words: bit \<open>2i\<close> is the rising-edge value of
  channel \<open>i\<close>, bit \<open>2i+1\<close> its falling-edge value.
\<close>

definition interleave :: "3 word \<Rightarrow> 3 word \<Rightarrow> 6 word" where
  "interleave r f = Cat [bit r 0, bit f 0, bit r 1, bit f 1, bit r 2, bit f 2]"




subsection \<open>PDMCaptureSubtarget without \<open>counter_prev\<close>\<close>

text \<open>
  The same machine with the register \<open>counter_prev\<close> and its assignment in the REPORT
  state removed; everything else is as above.
\<close>

record capture_state_np =
  fsm_np :: capture_fsm
  counter_np :: "6 word"
  pins_current_np :: "6 word"
  channels_np :: "6 word"
  streamer_np :: streamer_state

definition capture_reset_np :: capture_state_np where
  "capture_reset_np =
     \<lparr>fsm_np = REPORT, counter_np = 0, pins_current_np = 0, channels_np = 0,
      streamer_np = IDLE\<rparr>"

definition capture_sync_np :: "capture_state_np \<Rightarrow> capture_in \<Rightarrow> capture_state_np" where
  "capture_sync_np s i =
     (case fsm_np s of
        REPORT \<Rightarrow>
          s\<lparr>channels_np := channel_word (pins_current_np s),
            fsm_np := WAIT_RISING_EDGE\<rparr>
      | WAIT_RISING_EDGE \<Rightarrow>
          (if stb_r i then
             s\<lparr>pins_current_np := slice_eq 0 3 (pins_current_np s) (pins_i i),
               fsm_np := WAIT_FALLING_EDGE\<rparr>
           else s)
      | WAIT_FALLING_EDGE \<Rightarrow>
          (if stb_f i then
             s\<lparr>pins_current_np := slice_eq 3 6 (pins_current_np s) (pins_i i),
               counter_np := counter_np s + 1,
               fsm_np := REPORT\<rparr>
           else s))"

definition streamer_inputs_np :: "capture_state_np \<Rightarrow> capture_in \<Rightarrow> 6 streamer_in" where
  "streamer_inputs_np s i =
     \<lparr>strobe = stb_f i, w_rdy = in_fifo_w_rdy i, data = channels_np s\<rparr>"

definition PDMCaptureSubtarget_step_np ::
  "capture_state_np \<Rightarrow> capture_in \<Rightarrow> capture_state_np \<times> 8 word option" where
  "PDMCaptureSubtarget_step_np s i =
     (let r = FIFOStreamer_step (streamer_np s) (streamer_inputs_np s i)
      in ((capture_sync_np s i)\<lparr>streamer_np := fst r\<rparr>, snd r))"

fun PDMCaptureSubtarget_run_np ::
  "capture_state_np \<Rightarrow> capture_in list \<Rightarrow> 8 word option list" where
  "PDMCaptureSubtarget_run_np s [] = []"
| "PDMCaptureSubtarget_run_np s (i # is) =
     snd (PDMCaptureSubtarget_step_np s i)
       # PDMCaptureSubtarget_run_np (fst (PDMCaptureSubtarget_step_np s i)) is"

text \<open>The registers the two machines share.\<close>

definition drop_counter_prev :: "capture_state \<Rightarrow> capture_state_np" where
  "drop_counter_prev s =
     \<lparr>fsm_np = fsm s, counter_np = counter s, pins_current_np = pins_current s,
      channels_np = channels s, streamer_np = streamer s\<rparr>"

subsection \<open>AudioPDMApplet.interact\<close>

text \<open>
  Exceptions. \<open>except Exception\<close> catches the first two; \<open>CancelledError\<close> and
  \<open>KeyboardInterrupt\<close> derive from \<open>BaseException\<close> only and pass through it.
\<close>

datatype exn = OSError | TransportError | CancelledError | KeyboardInterrupt

definition is_Exception :: "exn \<Rightarrow> bool" where
  "is_Exception e = (e = OSError \<or> e = TransportError)"

text \<open>
  What one \<open>await iface.read()\<close> does: it returns a chunk of bytes or raises. A list of
  such results is the behaviour of the transport up to some point; when the list is
  used up the next read never completes, and neither does \<open>interact\<close>.
\<close>

datatype read_result = Chunk "8 word list" | ReadRaises exn

datatype log_entry =
  Info_starting_capture
| Error_FIFO_overrun
| Error_writing_to_file exn

text \<open>
  The destination file. \<open>open(name, "wb")\<close> gives a buffered writer: a \<open>write\<close> may return
  with its data still in the writer's buffer, and an error of the file may show only at a
  later call or at \<open>close\<close>. What the file does is not decided by the program; it is a
  parameter. A call that returns leaves at most \<open>n\<close> bytes in the writer's buffer
  (\<open>Returns n\<close>); a \<open>write\<close> that raises has taken the first \<open>a\<close> bytes of its argument
  and has moved \<open>f\<close> bytes from the buffer to the file (\<open>Raises a f\<close>). \<open>on_write k\<close> is the
  outcome of the call number \<open>k\<close> of \<open>f.write\<close>, from 0.
\<close>

datatype io_outcome = is_Returns: Returns nat | Raises nat nat

record device =
  open_ok :: bool
  on_write :: "nat \<Rightarrow> io_outcome"
  on_close :: io_outcome

text \<open>
  The local variables of \<open>interact\<close> and what it does to the world: the bytes in the
  destination file (\<open>disk\<close>), the bytes in the writer's buffer (\<open>pending\<close>), the arguments
  of the calls of \<open>f.write\<close> in order, the calls of \<open>f.close\<close>, the log, and whether the
  handle \<open>args.file\<close>, which \<open>argparse.FileType("wb")\<close> opened before \<open>interact\<close> runs
  (lines 119 to 121), is still open.
\<close>

record host_state =
  disk :: "8 word list"
  pending :: "8 word list"
  writes :: "8 word list list"
  close_calls :: nat
  args_file_open :: bool
  log :: "log_entry list"
  total_read :: nat
  overrun :: bool
  buffer :: "8 word list"

text \<open>\<open>f.write(bs)\<close>: the exception it raises, if any, and the state after the call.\<close>

definition f_write :: "device \<Rightarrow> host_state \<Rightarrow> 8 word list \<Rightarrow> exn option \<times> host_state" where
  "f_write dev s bs =
     (case on_write dev (length (writes s)) of
        Returns n \<Rightarrow>
          (None,
           s\<lparr>writes := writes s @ [bs],
             disk := disk s @ take (length (pending s @ bs) - n) (pending s @ bs),
             pending := drop (length (pending s @ bs) - n) (pending s @ bs)\<rparr>)
      | Raises a f \<Rightarrow>
          (Some OSError,
           s\<lparr>writes := writes s @ [bs],
             disk := disk s @ take f (pending s @ take a bs),
             pending := drop f (pending s @ take a bs)\<rparr>))"

text \<open>
  \<open>f.close()\<close>: the buffer is flushed and the handle is closed, also when the flush
  fails; then the error is raised and what was left in the buffer is lost. A \<open>close\<close>
  that returns has put the whole buffer into the file; one that raises (\<open>Raises a f\<close>)
  has put \<open>f\<close> bytes of it there.
\<close>

definition f_close :: "device \<Rightarrow> host_state \<Rightarrow> exn option \<times> host_state" where
  "f_close dev s =
     (case on_close dev of
        Returns n \<Rightarrow>
          (None,
           s\<lparr>disk := disk s @ pending s, pending := [],
             close_calls := Suc (close_calls s)\<rparr>)
      | Raises a f \<Rightarrow>
          (Some OSError,
           s\<lparr>disk := disk s @ take f (pending s), pending := [],
             close_calls := Suc (close_calls s)\<rparr>))"

definition flush_threshold :: nat where
  "flush_threshold = 1024 * 1024"

text \<open>
  The \<open>while not overrun\<close> loop (lines 150 to 167). The result is \<open>None\<close> when a read
  never completes; otherwise the exception that left the loop, if any, and the state
  there. \<open>break\<close> leaves the loop with no exception.
\<close>

fun consume ::
  "device \<Rightarrow> read_result list \<Rightarrow> host_state \<Rightarrow> (exn option \<times> host_state) option" where
  "consume dev [] s = None"
| "consume dev (ReadRaises e # rs) s = Some (Some e, s)"
| "consume dev (Chunk d # rs) s =
     (if length d = 0 then consume dev rs s
      else
        let s1 = s\<lparr>total_read := total_read s + length d\<rparr> in
        if 0xff \<in> set d then
          Some (None, s1\<lparr>log := log s1 @ [Error_FIFO_overrun], overrun := True\<rparr>)
        else
          let s2 = s1\<lparr>buffer := buffer s1 @ d\<rparr> in
          if length (buffer s2) > flush_threshold then
            (case fst (f_write dev s2 (buffer s2)) of
               Some e \<Rightarrow> Some (Some e, snd (f_write dev s2 (buffer s2)))
             | None \<Rightarrow> consume dev rs ((snd (f_write dev s2 (buffer s2)))\<lparr>buffer := []\<rparr>))
          else consume dev rs s2)"

text \<open>The body of the \<open>try\<close> (lines 148 to 171): the loop, then the last flush.\<close>

definition try_body ::
  "device \<Rightarrow> read_result list \<Rightarrow> host_state \<Rightarrow> (exn option \<times> host_state) option" where
  "try_body dev rs s =
     (case consume dev rs (s\<lparr>overrun := False, buffer := []\<rparr>) of
        None \<Rightarrow> None
      | Some (Some e, s1) \<Rightarrow> Some (Some e, s1)
      | Some (None, s1) \<Rightarrow>
          (if length (buffer s1) > 0 then
             (case fst (f_write dev s1 (buffer s1)) of
                Some e \<Rightarrow> Some (Some e, snd (f_write dev s1 (buffer s1)))
              | None \<Rightarrow> Some (None, (snd (f_write dev s1 (buffer s1)))\<lparr>buffer := []\<rparr>))
           else Some (None, s1)))"

text \<open>
  The state when \<open>interact\<close> is entered: \<open>argparse\<close> has created the file empty and holds
  \<open>args.file\<close> open.
\<close>

definition host_start :: host_state where
  "host_start =
     \<lparr>disk = [], pending = [], writes = [], close_calls = 0, args_file_open = True,
      log = [], total_read = 0, overrun = False, buffer = []\<rparr>"

text \<open>
  The \<open>except Exception\<close> clause (lines 172 to 173): an \<open>Exception\<close> is logged and
  handled, anything else stays in flight.
\<close>

definition except_Exception :: "exn option \<times> host_state \<Rightarrow> exn option \<times> host_state" where
  "except_Exception r =
     (case fst r of
        None \<Rightarrow> r
      | Some e \<Rightarrow>
          (if is_Exception e then
             (None, (snd r)\<lparr>log := log (snd r) @ [Error_writing_to_file e]\<rparr>)
           else r))"

text \<open>
  The \<open>finally\<close> clause (lines 174 to 175): \<open>f.close()\<close>; an exception it raises replaces
  the one in flight.
\<close>

definition finally_close :: "device \<Rightarrow> exn option \<times> host_state \<Rightarrow> exn option \<times> host_state" where
  "finally_close dev r =
     (case fst (f_close dev (snd r)) of
        Some e \<Rightarrow> (Some e, snd (f_close dev (snd r)))
      | None \<Rightarrow> (fst r, snd (f_close dev (snd r))))"

text \<open>
  \<open>interact\<close>. When \<open>open\<close> raises (line 144, before the \<open>try\<close>) the exception leaves
  at once. The first component of the result is the exception that leaves \<open>interact\<close>.
\<close>

definition interact ::
  "device \<Rightarrow> read_result list \<Rightarrow> (exn option \<times> host_state) option" where
  "interact dev rs =
     (if \<not> open_ok dev then Some (Some OSError, host_start)
      else
        (case try_body dev rs (host_start\<lparr>log := log host_start @ [Info_starting_capture]\<rparr>) of
           None \<Rightarrow> None
         | Some r \<Rightarrow> Some (finally_close dev (except_Exception r))))"

text \<open>
  The chunks accepted as data: those read before the first chunk with the sentinel and
  before the first read that raises.
\<close>

fun accepted :: "read_result list \<Rightarrow> 8 word list list" where
  "accepted [] = []"
| "accepted (ReadRaises e # rs) = []"
| "accepted (Chunk d # rs) = (if 0xff \<in> set d then [] else d # accepted rs)"

text \<open>
  Two destination files for the examples. On \<open>regular_file\<close> every call succeeds; small
  writes stay in the writer's buffer of 8192 bytes until \<open>close\<close>. On \<open>full_device\<close>
  (as \<open>/dev/full\<close>, or a disk with no space left) the writer takes small writes into its
  buffer, and the flush at \<open>close\<close> fails.
\<close>

definition regular_file :: device where
  "regular_file = \<lparr>open_ok = True, on_write = (\<lambda>k. Returns 8192), on_close = Returns 0\<rparr>"

definition full_device :: device where
  "full_device = \<lparr>open_ok = True, on_write = (\<lambda>k. Returns 8192), on_close = Raises 0 0\<rparr>"

section \<open>The FIFO streamer\<close>

lemma ucast_not_sentinel:
  assumes "LENGTH('w::len) \<le> 7"
  shows "ucast (d :: 'w word) \<noteq> (0xff :: 8 word)"
proof
  assume "ucast d = (0xff :: 8 word)"
  then have "bit (ucast d :: 8 word) 7 = bit (0xff :: 8 word) 7"
    by simp
  moreover have "bit (0xff :: 8 word) 7"
    by simp
  moreover have "\<not> bit d 7"
    using assms by (auto dest: bit_imp_le_length)
  ultimately show False
    by (simp add: bit_ucast_iff)
qed

lemma unat_ucast_data: "unat (ucast (d :: 'w::len word) :: 8 word) < 2 ^ LENGTH('w)"
proof -
  have "unat (ucast d :: 8 word) \<le> unat d"
    by (simp add: unsigned_ucast_eq take_bit_nat_less_eq_self)
  moreover have "unat d < 2 ^ LENGTH('w)"
    by simp
  ultimately show ?thesis
    by linarith
qed

lemma FIFOStreamer_step_write:
  "snd (FIFOStreamer_step s i) = Some b \<Longrightarrow>
     (s = REPORT_OVERRUN \<and> w_rdy i \<and> b = 0xff)
     \<or> (s = IDLE \<and> strobe i \<and> w_rdy i \<and> b = ucast (data i))"
  by (cases s) (auto split: if_splits)

lemma writes_le_strobes:
  "length (written (FIFOStreamer_run s is))
     \<le> length (filter strobe is) + (if s = REPORT_OVERRUN then 1 else 0)"
proof (induction "is" arbitrary: s)
  case Nil
  show ?case by simp
next
  case (Cons i "is")
  show ?case
  proof (cases s)
    case IDLE
    then show ?thesis
      using Cons.IH [of WAIT] Cons.IH [of REPORT_OVERRUN] Cons.IH [of IDLE] by simp
  next
    case REPORT_OVERRUN
    then show ?thesis
      using Cons.IH [of IDLE] Cons.IH [of REPORT_OVERRUN] by simp
  next
    case WAIT
    then show ?thesis
      using Cons.IH [of IDLE] by simp
  qed
qed

lemma run_nth_write:
  "k < length is \<Longrightarrow> FIFOStreamer_run s is ! k = Some b \<Longrightarrow>
     b = 0xff \<or> (strobe (is ! k) \<and> w_rdy (is ! k) \<and> b = ucast (data (is ! k)))"
proof (induction "is" arbitrary: s k)
  case Nil
  then show ?case by simp
next
  case (Cons i "is")
  show ?case
  proof (cases k)
    case 0
    with Cons.prems show ?thesis
      by (auto dest: FIFOStreamer_step_write)
  next
    case (Suc j)
    with Cons.prems Cons.IH [of j "fst (FIFOStreamer_step s i)"] show ?thesis
      by simp
  qed
qed

lemma no_sentinel_with_room:
  "\<forall>i\<in>set is. strobe i \<longrightarrow> w_rdy i \<Longrightarrow> s \<noteq> REPORT_OVERRUN \<Longrightarrow>
     FIFOStreamer_after s is \<noteq> REPORT_OVERRUN
     \<and> (\<forall>k<length is. FIFOStreamer_run s is ! k \<noteq> None \<longrightarrow>
           FIFOStreamer_run s is ! k = Some (ucast (data (is ! k))))"
proof (induction "is" arbitrary: s)
  case Nil
  then show ?case by simp
next
  case (Cons i "is")
  have nxt: "fst (FIFOStreamer_step s i) \<noteq> REPORT_OVERRUN"
    using Cons.prems by (cases s) auto
  have here: "snd (FIFOStreamer_step s i) \<noteq> None \<Longrightarrow>
      snd (FIFOStreamer_step s i) = Some (ucast (data i))"
    using Cons.prems by (cases s) (auto split: if_splits)
  from Cons.IH [OF _ nxt] Cons.prems(1)
  have ih: "FIFOStreamer_after (fst (FIFOStreamer_step s i)) is \<noteq> REPORT_OVERRUN"
    "\<forall>k<length is. FIFOStreamer_run (fst (FIFOStreamer_step s i)) is ! k \<noteq> None \<longrightarrow>
       FIFOStreamer_run (fst (FIFOStreamer_step s i)) is ! k = Some (ucast (data (is ! k)))"
    by simp_all
  show ?case
  proof (intro conjI allI impI)
    show "FIFOStreamer_after s (i # is) \<noteq> REPORT_OVERRUN"
      using ih(1) by simp
  next
    fix k
    assume "k < length (i # is)" "FIFOStreamer_run s (i # is) ! k \<noteq> None"
    then show "FIFOStreamer_run s (i # is) ! k = Some (ucast (data ((i # is) ! k)))"
      using here ih(2) by (cases k) auto
  qed
qed

lemma spaced_run:
  "strobes_spaced is \<Longrightarrow> \<forall>i\<in>set is. strobe i \<longrightarrow> w_rdy i \<Longrightarrow>
     s = IDLE \<or> (s = WAIT \<and> (case is of [] \<Rightarrow> True | i # _ \<Rightarrow> \<not> strobe i)) \<Longrightarrow>
     FIFOStreamer_run s is = one_byte_per_strobe is"
proof (induction "is" arbitrary: s)
  case Nil
  show ?case by (simp add: one_byte_per_strobe_def)
next
  case (Cons i "is")
  have tl_spaced: "strobes_spaced is"
    using Cons.prems(1) by (cases "is") simp_all
  have after_strobe: "strobe i \<Longrightarrow> (case is of [] \<Rightarrow> True | j # _ \<Rightarrow> \<not> strobe j)"
    using Cons.prems(1) by (cases "is") simp_all
  have room: "\<forall>j\<in>set is. strobe j \<longrightarrow> w_rdy j" "strobe i \<longrightarrow> w_rdy i"
    using Cons.prems(2) by simp_all
  from Cons.prems(3) show ?case
  proof
    assume s: "s = IDLE"
    show ?thesis
    proof (cases "strobe i")
      case True
      then have "FIFOStreamer_run WAIT is = one_byte_per_strobe is"
        using Cons.IH [OF tl_spaced room(1), of WAIT] after_strobe by simp
      with True room(2) s show ?thesis
        by (simp add: one_byte_per_strobe_def)
    next
      case False
      then have "FIFOStreamer_run IDLE is = one_byte_per_strobe is"
        using Cons.IH [OF tl_spaced room(1), of IDLE] by simp
      with False s show ?thesis
        by (simp add: one_byte_per_strobe_def)
    qed
  next
    assume s: "s = WAIT \<and> (case i # is of [] \<Rightarrow> True | i # _ \<Rightarrow> \<not> strobe i)"
    then have "FIFOStreamer_run IDLE is = one_byte_per_strobe is"
      using Cons.IH [OF tl_spaced room(1), of IDLE] by simp
    with s show ?thesis
      by (simp add: one_byte_per_strobe_def)
  qed
qed

lemma stalled_run:
  "\<forall>j\<in>set stall. \<not> w_rdy j \<Longrightarrow>
     FIFOStreamer_run REPORT_OVERRUN (stall @ rest)
       = replicate (length stall) None @ FIFOStreamer_run REPORT_OVERRUN rest
     \<and> FIFOStreamer_after REPORT_OVERRUN (stall @ rest)
       = FIFOStreamer_after REPORT_OVERRUN rest"
  by (induction stall) simp_all

lemma set_written: "b \<in> set (written ws) \<longleftrightarrow> Some b \<in> set ws"
  by (induction ws rule: written.induct) auto

lemma length_FIFOStreamer_run: "length (FIFOStreamer_run s is) = length is"
  by (induction "is" arbitrary: s) simp_all

lemma written_replicate_None: "written (replicate n None @ ws) = written ws"
  by (induction n) simp_all

lemma data_write_enters_WAIT:
  "snd (FIFOStreamer_step s i) = Some b \<Longrightarrow> b \<noteq> 0xff \<Longrightarrow> fst (FIFOStreamer_step s i) = WAIT"
  by (cases s) (auto split: if_splits)

lemma cooldown_after_data_write:
  "Suc k < length is \<Longrightarrow> FIFOStreamer_run s is ! k = Some b \<Longrightarrow> b \<noteq> 0xff \<Longrightarrow>
     FIFOStreamer_run s is ! Suc k = None"
proof (induction "is" arbitrary: s k)
  case Nil
  then show ?case by simp
next
  case (Cons i "is")
  show ?case
  proof (cases k)
    case 0
    with Cons.prems have "fst (FIFOStreamer_step s i) = WAIT"
      by (auto dest: data_write_enters_WAIT)
    moreover from Cons.prems 0 obtain j js where "is = j # js"
      by (cases "is") auto
    ultimately show ?thesis
      using 0 by simp
  next
    case (Suc n)
    with Cons.prems Cons.IH [of n "fst (FIFOStreamer_step s i)"] show ?thesis
      by simp
  qed
qed


text \<open>
  C3. When a strobe finds the queue full in IDLE, the machine goes to REPORT_OVERRUN and
  writes nothing in that cycle. While the queue stays full it writes nothing; in the
  first cycle with room it writes 0xFF and is back in IDLE. The sample of the strobe that
  found the queue full is never written: what is written from there on is the sentinel,
  then whatever the machine writes from IDLE on the later inputs.
\<close>

theorem overrun_drops_sample_and_reports:
  fixes i k :: "('w::len) streamer_in"
  assumes "strobe i" and "\<not> w_rdy i"
    and "\<forall>j\<in>set stall. \<not> w_rdy j" and "w_rdy k"
  shows "FIFOStreamer_step IDLE i = (REPORT_OVERRUN, None)
    \<and> FIFOStreamer_run IDLE (i # stall @ k # rest)
        = None # replicate (length stall) None @ Some 0xff # FIFOStreamer_run IDLE rest
    \<and> written (FIFOStreamer_run IDLE (i # stall @ k # rest))
        = 0xff # written (FIFOStreamer_run IDLE rest)
    \<and> FIFOStreamer_after IDLE (i # stall @ [k]) = IDLE"
proof -
  have first: "FIFOStreamer_step IDLE i = (REPORT_OVERRUN, None)"
    using assms(1,2) by simp
  have run: "FIFOStreamer_run IDLE (i # stall @ k # rest)
      = None # replicate (length stall) None @ Some 0xff # FIFOStreamer_run IDLE rest"
    using first stalled_run [OF assms(3), of "k # rest"] assms(4) by simp
  have "FIFOStreamer_after IDLE (i # stall @ [k]) = IDLE"
    using first stalled_run [OF assms(3), of "[k]"] assms(4) by simp
  with first run show ?thesis
    by (simp add: written_replicate_None)
qed

theorem overrun_drops_sample_and_reports_witness:
  "FIFOStreamer_run IDLE
     [\<lparr>strobe = True, w_rdy = False, data = (5 :: 6 word)\<rparr>,
      \<lparr>strobe = False, w_rdy = False, data = 5\<rparr>,
      \<lparr>strobe = False, w_rdy = True, data = 5\<rparr>,
      \<lparr>strobe = True, w_rdy = True, data = 9\<rparr>]
   = [None, None, Some 0xff, Some 9]"
  using overrun_drops_sample_and_reports
    [of "\<lparr>strobe = True, w_rdy = False, data = (5 :: 6 word)\<rparr>"
        "[\<lparr>strobe = False, w_rdy = False, data = 5\<rparr>]"
        "\<lparr>strobe = False, w_rdy = True, data = 5\<rparr>"
        "[\<lparr>strobe = True, w_rdy = True, data = 9\<rparr>]"]
  by simp

text \<open>
  C4, as stated, fails: with strobes in two consecutive cycles and room in both, the
  second strobe finds the machine in WAIT and writes nothing.
\<close>

theorem consecutive_strobes_counterexample:
  "w_rdy \<lparr>strobe = True, w_rdy = True, data = (1 :: 6 word)\<rparr>
   \<and> w_rdy \<lparr>strobe = True, w_rdy = True, data = (2 :: 6 word)\<rparr>
   \<and> FIFOStreamer_run IDLE
        [\<lparr>strobe = True, w_rdy = True, data = (1 :: 6 word)\<rparr>,
         \<lparr>strobe = True, w_rdy = True, data = 2\<rparr>]
       = [Some 1, None]
   \<and> FIFOStreamer_run IDLE
        [\<lparr>strobe = True, w_rdy = True, data = (1 :: 6 word)\<rparr>,
         \<lparr>strobe = True, w_rdy = True, data = 2\<rparr>]
       \<noteq> one_byte_per_strobe
           [\<lparr>strobe = True, w_rdy = True, data = (1 :: 6 word)\<rparr>,
            \<lparr>strobe = True, w_rdy = True, data = 2\<rparr>]"
  by (simp add: one_byte_per_strobe_def)

text \<open>
  C4, amended. For every input sequence, from IDLE: there are at most as many writes as
  strobes; every write is either the sentinel or the data word of a strobe with room,
  never both; with room at every strobe the sentinel is never written; with room at every
  strobe and no two strobes in consecutive cycles, every strobe writes its data word and
  no other cycle writes; and in the cycle right after a data write nothing is written,
  strobe or not: that cycle is the WAIT cooldown.
\<close>

theorem one_write_per_strobe:
  fixes "is" :: "('w::len) streamer_in list"
  assumes "FIFOStreamer_init LENGTH('w) = Inr width"
  shows "length (written (FIFOStreamer_run IDLE is)) \<le> length (filter strobe is)
    \<and> (\<forall>k b. k < length is \<and> FIFOStreamer_run IDLE is ! k = Some b \<longrightarrow>
          (b = 0xff) \<noteq> (strobe (is ! k) \<and> w_rdy (is ! k) \<and> b = ucast (data (is ! k))))
    \<and> ((\<forall>i\<in>set is. strobe i \<longrightarrow> w_rdy i) \<longrightarrow>
          0xff \<notin> set (written (FIFOStreamer_run IDLE is)))
    \<and> ((\<forall>i\<in>set is. strobe i \<longrightarrow> w_rdy i) \<and> strobes_spaced is \<longrightarrow>
          FIFOStreamer_run IDLE is = one_byte_per_strobe is)
    \<and> (\<forall>k b. Suc k < length is \<and> FIFOStreamer_run IDLE is ! k = Some b \<and> b \<noteq> 0xff \<longrightarrow>
          FIFOStreamer_run IDLE is ! Suc k = None)"
proof -
  have width: "LENGTH('w) \<le> 7"
    using assms by (simp add: FIFOStreamer_init_def split: if_splits)
  have count: "length (written (FIFOStreamer_run IDLE is)) \<le> length (filter strobe is)"
    using writes_le_strobes [of IDLE "is"] by simp
  have kind: "(b = 0xff) \<noteq> (strobe (is ! k) \<and> w_rdy (is ! k) \<and> b = ucast (data (is ! k)))"
    if "k < length is" and "FIFOStreamer_run IDLE is ! k = Some b" for k b
    using run_nth_write [OF that] ucast_not_sentinel [OF width, of "data (is ! k)"] by auto
  have clean: "0xff \<notin> set (written (FIFOStreamer_run IDLE is))"
    if room: "\<forall>i\<in>set is. strobe i \<longrightarrow> w_rdy i"
  proof
    assume "0xff \<in> set (written (FIFOStreamer_run IDLE is))"
    then have "Some 0xff \<in> set (FIFOStreamer_run IDLE is)"
      by (simp add: set_written)
    then obtain k where k: "k < length (FIFOStreamer_run IDLE is)"
        "FIFOStreamer_run IDLE is ! k = Some 0xff"
      by (auto simp: in_set_conv_nth)
    then have "k < length is"
      by (simp add: length_FIFOStreamer_run)
    with no_sentinel_with_room [OF room, of IDLE] k(2)
    have "(0xff :: 8 word) = ucast (data (is ! k))"
      by auto
    with ucast_not_sentinel [OF width, of "data (is ! k)"] show False
      by simp
  qed
  have every: "FIFOStreamer_run IDLE is = one_byte_per_strobe is"
    if "\<forall>i\<in>set is. strobe i \<longrightarrow> w_rdy i" and "strobes_spaced is"
    using spaced_run [OF that(2) that(1), of IDLE] by simp
  have cool: "FIFOStreamer_run IDLE is ! Suc k = None"
    if "Suc k < length is" and "FIFOStreamer_run IDLE is ! k = Some b" and "b \<noteq> 0xff" for k b
    using that by (rule cooldown_after_data_write)
  from count kind clean every cool show ?thesis
    by blast
qed

theorem one_write_per_strobe_witness:
  "FIFOStreamer_init LENGTH(6) = Inr 6
   \<and> strobes_spaced
        [\<lparr>strobe = True, w_rdy = True, data = (1 :: 6 word)\<rparr>,
         \<lparr>strobe = False, w_rdy = False, data = 1\<rparr>,
         \<lparr>strobe = True, w_rdy = True, data = 2\<rparr>]
   \<and> FIFOStreamer_run IDLE
        [\<lparr>strobe = True, w_rdy = True, data = (1 :: 6 word)\<rparr>,
         \<lparr>strobe = False, w_rdy = False, data = 1\<rparr>,
         \<lparr>strobe = True, w_rdy = True, data = 2\<rparr>]
       = [Some 1, None, Some 2]
   \<and> FIFOStreamer_run IDLE
        [\<lparr>strobe = True, w_rdy = True, data = (1 :: 6 word)\<rparr>,
         \<lparr>strobe = True, w_rdy = True, data = 2\<rparr>] ! 0 = Some 1
   \<and> FIFOStreamer_run IDLE
        [\<lparr>strobe = True, w_rdy = True, data = (1 :: 6 word)\<rparr>,
         \<lparr>strobe = True, w_rdy = True, data = 2\<rparr>] ! Suc 0 = None"
proof -
  have init: "FIFOStreamer_init LENGTH(6) = Inr 6"
    by (simp add: FIFOStreamer_init_def)
  have spaced: "FIFOStreamer_run IDLE
        [\<lparr>strobe = True, w_rdy = True, data = (1 :: 6 word)\<rparr>,
         \<lparr>strobe = False, w_rdy = False, data = 1\<rparr>,
         \<lparr>strobe = True, w_rdy = True, data = 2\<rparr>]
       = [Some 1, None, Some 2]"
    using one_write_per_strobe [OF init,
        of "[\<lparr>strobe = True, w_rdy = True, data = (1 :: 6 word)\<rparr>,
             \<lparr>strobe = False, w_rdy = False, data = 1\<rparr>,
             \<lparr>strobe = True, w_rdy = True, data = 2\<rparr>]"]
    by (simp add: one_byte_per_strobe_def)
  have first: "FIFOStreamer_run IDLE
        [\<lparr>strobe = True, w_rdy = True, data = (1 :: 6 word)\<rparr>,
         \<lparr>strobe = True, w_rdy = True, data = 2\<rparr>] ! 0 = Some 1"
    by simp
  have "Suc 0 < length
        [\<lparr>strobe = True, w_rdy = True, data = (1 :: 6 word)\<rparr>,
         \<lparr>strobe = True, w_rdy = True, data = 2\<rparr>]"
      "(1 :: 8 word) \<noteq> 0xff"
    by simp_all
  with first one_write_per_strobe [OF init,
        of "[\<lparr>strobe = True, w_rdy = True, data = (1 :: 6 word)\<rparr>,
             \<lparr>strobe = True, w_rdy = True, data = 2\<rparr>]"]
  have cool: "FIFOStreamer_run IDLE
        [\<lparr>strobe = True, w_rdy = True, data = (1 :: 6 word)\<rparr>,
         \<lparr>strobe = True, w_rdy = True, data = 2\<rparr>] ! Suc 0 = None"
    by blast
  from init spaced first cool show ?thesis
    by simp
qed

text \<open>
  C8, as stated, fails: the sample word with all six bits set is 0x3F, the REPORT state
  maps it to itself, and the byte written for it in IDLE is 0x3F, not 0xFF.
\<close>

theorem all_ones_sample_counterexample:
  "channel_word 0x3f = 0x3f
   \<and> FIFOStreamer_step IDLE \<lparr>strobe = True, w_rdy = True, data = (0x3f :: 6 word)\<rparr>
       = (WAIT, Some 0x3f)
   \<and> (0x3f :: 8 word) \<noteq> 0xff"
  by (simp add: channel_word_def Cat_def)

text \<open>
  C8, amended. For every width that the assertion of \<open>FIFOStreamer.__init__\<close> admits,
  what IDLE writes is never the sentinel: the byte written at a strobe with room is the
  zero-extended data word, below \<open>2 ^ width\<close>; for three channels it is at most 0x3F.
\<close>

theorem data_byte_never_sentinel:
  fixes i :: "('w::len) streamer_in"
  assumes "FIFOStreamer_init LENGTH('w) = Inr width"
  shows "snd (FIFOStreamer_step IDLE i) \<noteq> Some 0xff
    \<and> (strobe i \<and> w_rdy i \<longrightarrow>
          snd (FIFOStreamer_step IDLE i) = Some (ucast (data i))
          \<and> unat (ucast (data i) :: 8 word) < 2 ^ width)"
proof -
  have width: "LENGTH('w) \<le> 7" "width = LENGTH('w)"
    using assms by (simp_all add: FIFOStreamer_init_def split: if_splits)
  show ?thesis
    using ucast_not_sentinel [OF width(1), of "data i"] unat_ucast_data [of "data i"] width(2)
    by simp
qed

theorem data_byte_never_sentinel_witness:
  "FIFOStreamer_init LENGTH(6) = Inr 6
   \<and> snd (FIFOStreamer_step IDLE \<lparr>strobe = True, w_rdy = True, data = (0x3f :: 6 word)\<rparr>)
       \<noteq> Some 0xff
   \<and> unat (ucast (0x3f :: 6 word) :: 8 word) < 2 ^ 6"
proof -
  have init: "FIFOStreamer_init LENGTH(6) = Inr 6"
    by (simp add: FIFOStreamer_init_def)
  show ?thesis
    using init data_byte_never_sentinel [OF init,
        of "\<lparr>strobe = True, w_rdy = True, data = (0x3f :: 6 word)\<rparr>"]
    by simp
qed

section \<open>The sampling machine\<close>

lemma bit_Cat:
  "bit (Cat bs :: 'a::len word) n \<longleftrightarrow> n < LENGTH('a) \<and> n < length bs \<and> bs ! n"
  by (auto simp: Cat_def bit_horner_sum_bit_word_iff)

lemma bit_slice_eq:
  "bit (slice_eq lo hi (t :: 'a::len word) (v :: 'b::len word)) k \<longleftrightarrow>
     (if lo \<le> k \<and> k < hi then k < LENGTH('a) \<and> bit v (k - lo) else bit t k)"
  by (auto simp: slice_eq_def bit_simps dest: bit_imp_le_length)

lemma lt3_cases: "i < (3::nat) \<Longrightarrow> i = 0 \<or> i = 1 \<or> i = 2"
  by arith

lemma lt6_cases: "n < (6::nat) \<Longrightarrow> n = 0 \<or> n = 1 \<or> n = 2 \<or> n = 3 \<or> n = 4 \<or> n = 5"
  by arith

lemma channel_word_bits:
  assumes "i < 3"
  shows "bit (channel_word pc) (2 * i) = bit pc i"
    and "bit (channel_word pc) (2 * i + 1) = bit pc (i + 3)"
  using lt3_cases [OF assms] by (auto simp: channel_word_def bit_Cat)

lemma interleave_bits:
  assumes "i < 3"
  shows "bit (interleave r f) (2 * i) = bit r i"
    and "bit (interleave r f) (2 * i + 1) = bit f i"
  using lt3_cases [OF assms] by (auto simp: interleave_def bit_Cat)

lemma channel_word_captured:
  assumes "take_bit 3 pc = (ucast r :: 6 word)"
  shows "channel_word (slice_eq 3 6 pc f) = interleave r f"
proof (rule bit_word_eqI)
  fix n
  assume "n < LENGTH(6)"
  then have n: "n < 6" by simp
  have low: "bit pc k = bit r k" if "k < 3" for k
  proof -
    have "bit (take_bit 3 pc) k = bit (ucast r :: 6 word) k"
      using assms by simp
    with that show ?thesis
      by (simp add: bit_simps)
  qed
  show "bit (channel_word (slice_eq 3 6 pc f)) n = bit (interleave r f) n"
    using lt6_cases [OF n] low [of 0] low [of 1] low [of 2]
    by (auto simp: channel_word_def interleave_def bit_Cat bit_slice_eq)
qed

lemma take_bit_rising_capture:
  "take_bit 3 (slice_eq 0 3 pc r) = (ucast (r :: 3 word) :: 6 word)"
  by (rule bit_word_eqI) (auto simp: bit_simps bit_slice_eq dest: bit_imp_le_length)

lemma take_bit_falling_capture:
  "take_bit 3 (slice_eq 3 6 pc f) = take_bit 3 (pc :: 6 word)"
  by (rule bit_word_eqI) (auto simp: bit_simps bit_slice_eq)

lemma step_fields:
  "fsm (fst (PDMCaptureSubtarget_step s i)) = fsm (capture_sync s i)"
  "channels (fst (PDMCaptureSubtarget_step s i)) = channels (capture_sync s i)"
  "pins_current (fst (PDMCaptureSubtarget_step s i)) = pins_current (capture_sync s i)"
  by (simp_all add: PDMCaptureSubtarget_step_def Let_def)

lemma capture_sync_REPORT:
  "fsm s = REPORT \<Longrightarrow>
     fsm (capture_sync s i) = WAIT_RISING_EDGE
     \<and> channels (capture_sync s i) = channel_word (pins_current s)
     \<and> pins_current (capture_sync s i) = pins_current s"
  by (simp add: capture_sync_def)

lemma capture_sync_RISING:
  "fsm s = WAIT_RISING_EDGE \<Longrightarrow>
     channels (capture_sync s i) = channels s
     \<and> fsm (capture_sync s i) = (if stb_r i then WAIT_FALLING_EDGE else WAIT_RISING_EDGE)
     \<and> pins_current (capture_sync s i)
         = (if stb_r i then slice_eq 0 3 (pins_current s) (pins_i i) else pins_current s)"
  by (simp add: capture_sync_def)

lemma capture_sync_FALLING:
  "fsm s = WAIT_FALLING_EDGE \<Longrightarrow>
     channels (capture_sync s i) = channels s
     \<and> fsm (capture_sync s i) = (if stb_f i then REPORT else WAIT_FALLING_EDGE)
     \<and> pins_current (capture_sync s i)
         = (if stb_f i then slice_eq 3 6 (pins_current s) (pins_i i) else pins_current s)"
  by (simp add: capture_sync_def)







lemma step_np_simulates:
  "PDMCaptureSubtarget_step_np (drop_counter_prev s) i
     = (drop_counter_prev (fst (PDMCaptureSubtarget_step s i)),
        snd (PDMCaptureSubtarget_step s i))"
  by (cases "fsm s")
    (simp_all add: PDMCaptureSubtarget_step_np_def PDMCaptureSubtarget_step_def
      drop_counter_prev_def capture_sync_np_def capture_sync_def
      streamer_inputs_np_def streamer_inputs_def Let_def)

lemma run_np_simulates:
  "PDMCaptureSubtarget_run_np (drop_counter_prev s) is = PDMCaptureSubtarget_run s is"
  by (induction "is" arbitrary: s) (simp_all add: step_np_simulates)

lemma drop_counter_prev_update:
  "drop_counter_prev (s\<lparr>counter_prev := v\<rparr>) = drop_counter_prev s"
  by (simp add: drop_counter_prev_def)

lemma index_all_ok:
  "index_all w ks = (if \<forall>k\<in>set ks. k < w then Inr ks else Inl IndexError)"
  by (induction ks) (simp_all add: signal_index_def)

text \<open>
  C2. For three channels the word handed to the streamer is the interleave of the two
  halves of \<open>pins_current\<close>: the REPORT state puts bit \<open>i\<close> of the register (the rising
  half) at bit \<open>2i\<close> and bit \<open>i + 3\<close> (the falling half) at bit \<open>2i + 1\<close>. Over a sampling
  cycle (REPORT, the rising strobe, the falling strobe, REPORT) the streamer's data word
  has the pin \<open>i\<close> of the rising strobe at bit \<open>2i\<close> and the pin \<open>i\<close> of the falling strobe
  at bit \<open>2i + 1\<close>.
\<close>

theorem channel_word_is_interleave:
  assumes "i < 3" and "fsm s = REPORT" and "stb_r a" and "stb_f b"
  shows "bit (channels (fst (PDMCaptureSubtarget_step s x))) (2 * i) = bit (pins_current s) i
    \<and> bit (channels (fst (PDMCaptureSubtarget_step s x))) (2 * i + 1)
        = bit (pins_current s) (i + 3)
    \<and> bit (data (streamer_inputs (PDMCaptureSubtarget_after s [x, a, b, c]) d)) (2 * i)
        = bit (pins_i a) i
    \<and> bit (data (streamer_inputs (PDMCaptureSubtarget_after s [x, a, b, c]) d)) (2 * i + 1)
        = bit (pins_i b) i"
proof -
  let ?s1 = "fst (PDMCaptureSubtarget_step s x)"
  let ?s2 = "fst (PDMCaptureSubtarget_step ?s1 a)"
  let ?s3 = "fst (PDMCaptureSubtarget_step ?s2 b)"
  let ?s4 = "fst (PDMCaptureSubtarget_step ?s3 c)"
  have s1: "fsm ?s1 = WAIT_RISING_EDGE" "channels ?s1 = channel_word (pins_current s)"
    using capture_sync_REPORT [OF assms(2), of x] by (simp_all add: step_fields)
  have s2: "fsm ?s2 = WAIT_FALLING_EDGE"
      "take_bit 3 (pins_current ?s2) = ucast (pins_i a)"
    using capture_sync_RISING [OF s1(1), of a] assms(3)
    by (simp_all add: step_fields take_bit_rising_capture)
  have s3: "fsm ?s3 = REPORT"
      "channel_word (pins_current ?s3) = interleave (pins_i a) (pins_i b)"
    using capture_sync_FALLING [OF s2(1), of b] assms(4) s2(2)
    by (simp_all add: step_fields channel_word_captured)
  have s4: "channels ?s4 = interleave (pins_i a) (pins_i b)"
    using capture_sync_REPORT [OF s3(1), of c] s3(2) by (simp add: step_fields)
  have "data (streamer_inputs (PDMCaptureSubtarget_after s [x, a, b, c]) d)
      = interleave (pins_i a) (pins_i b)"
    using s4 by (simp add: streamer_inputs_def)
  then show ?thesis
    using s1(2) channel_word_bits [OF assms(1)] interleave_bits [OF assms(1)] by simp
qed

theorem channel_word_is_interleave_witness:
  "(1 :: nat) < 3 \<and> fsm capture_reset = REPORT
   \<and> data (streamer_inputs
        (PDMCaptureSubtarget_after capture_reset
           [\<lparr>stb_r = False, stb_f = False, pins_i = 0, in_fifo_w_rdy = True\<rparr>,
            \<lparr>stb_r = True, stb_f = False, pins_i = 2, in_fifo_w_rdy = True\<rparr>,
            \<lparr>stb_r = False, stb_f = True, pins_i = 0, in_fifo_w_rdy = True\<rparr>,
            \<lparr>stb_r = False, stb_f = False, pins_i = 0, in_fifo_w_rdy = True\<rparr>])
        \<lparr>stb_r = False, stb_f = False, pins_i = 0, in_fifo_w_rdy = True\<rparr>) = 4
   \<and> bit (4 :: 6 word) (2 * 1) = bit (2 :: 3 word) 1
   \<and> bit (4 :: 6 word) (2 * 1 + 1) = bit (0 :: 3 word) 1"
proof -
  have h: "(1 :: nat) < 3" "fsm capture_reset = REPORT"
      "stb_r \<lparr>stb_r = True, stb_f = False, pins_i = 2, in_fifo_w_rdy = True\<rparr>"
      "stb_f \<lparr>stb_r = False, stb_f = True, pins_i = 0, in_fifo_w_rdy = True\<rparr>"
    by (simp_all add: capture_reset_def)
  have v: "data (streamer_inputs
        (PDMCaptureSubtarget_after capture_reset
           [\<lparr>stb_r = False, stb_f = False, pins_i = 0, in_fifo_w_rdy = True\<rparr>,
            \<lparr>stb_r = True, stb_f = False, pins_i = 2, in_fifo_w_rdy = True\<rparr>,
            \<lparr>stb_r = False, stb_f = True, pins_i = 0, in_fifo_w_rdy = True\<rparr>,
            \<lparr>stb_r = False, stb_f = False, pins_i = 0, in_fifo_w_rdy = True\<rparr>])
        \<lparr>stb_r = False, stb_f = False, pins_i = 0, in_fifo_w_rdy = True\<rparr>) = 4"
    by (simp add: capture_reset_def PDMCaptureSubtarget_step_def capture_sync_def
        streamer_inputs_def channel_word_def Cat_def bit_slice_eq Let_def)
  show ?thesis
    using h(1,2) v
      channel_word_is_interleave [OF h,
        of "\<lparr>stb_r = False, stb_f = False, pins_i = 0, in_fifo_w_rdy = True\<rparr>"
           "\<lparr>stb_r = False, stb_f = False, pins_i = 0, in_fifo_w_rdy = True\<rparr>"
           "\<lparr>stb_r = False, stb_f = False, pins_i = 0, in_fifo_w_rdy = True\<rparr>"]
    by simp
qed




text \<open>
  C9. The machine without \<open>counter_prev\<close> puts the same values on the write port in every
  cycle, for every input sequence, so the same bytes enter the queue; and the value of
  \<open>counter_prev\<close> has no influence on what the machine as written puts there.
\<close>

theorem counter_prev_never_read:
  "PDMCaptureSubtarget_run_np capture_reset_np is = PDMCaptureSubtarget_run capture_reset is
   \<and> written (PDMCaptureSubtarget_run_np capture_reset_np is)
       = written (PDMCaptureSubtarget_run capture_reset is)
   \<and> PDMCaptureSubtarget_run (s\<lparr>counter_prev := v\<rparr>) is = PDMCaptureSubtarget_run s is"
proof -
  have reset: "capture_reset_np = drop_counter_prev capture_reset"
    by (simp add: capture_reset_np_def capture_reset_def drop_counter_prev_def)
  have "PDMCaptureSubtarget_run_np capture_reset_np is
      = PDMCaptureSubtarget_run capture_reset is"
    unfolding reset by (rule run_np_simulates)
  moreover have "PDMCaptureSubtarget_run (s\<lparr>counter_prev := v\<rparr>) is
      = PDMCaptureSubtarget_run s is"
    using run_np_simulates [of "s\<lparr>counter_prev := v\<rparr>" "is"] run_np_simulates [of s "is"]
    by (simp add: drop_counter_prev_update)
  ultimately show ?thesis
    by simp
qed

text \<open>
  C10. With the pin set of width 3 that the applet declares, elaboration succeeds: the
  streamer has width 6 and every bit the permutation reads is below \<open>2 * 3\<close>. For no other
  number of pins does elaboration succeed: with fewer the permutation indexes past the
  register (IndexError), with more the streamer's assertion on its width fails before the
  permutation is reached.
\<close>

theorem elaborates_only_for_three_pins:
  "PDMCaptureSubtarget_elaborate pin_set_i_width = Inr (6, permutation_indices)
   \<and> (\<forall>k\<in>set permutation_indices. k < 2 * pin_set_i_width)
   \<and> ((\<exists>r. PDMCaptureSubtarget_elaborate n = Inr r) \<longleftrightarrow> n = pin_set_i_width)"
proof -
  have ok: "PDMCaptureSubtarget_elaborate 3 = Inr (6, permutation_indices)"
    by (simp add: PDMCaptureSubtarget_elaborate_def FIFOStreamer_init_def
        permutation_indices_def signal_index_def)
  have bounds: "\<forall>k\<in>set permutation_indices. k < 2 * 3"
    by (simp add: permutation_indices_def)
  have only: "n = 3" if "PDMCaptureSubtarget_elaborate n = Inr r" for r
  proof -
    from that have "n * 2 \<le> 7"
      by (auto simp: PDMCaptureSubtarget_elaborate_def FIFOStreamer_init_def
          split: sum.splits if_splits)
    moreover from that obtain js where "index_all (n * 2) permutation_indices = Inr js"
      by (auto simp: PDMCaptureSubtarget_elaborate_def split: sum.splits)
    then have "\<forall>k\<in>set permutation_indices. k < n * 2"
      unfolding index_all_ok by (simp split: if_splits)
    then have "5 < n * 2"
      by (simp add: permutation_indices_def)
    ultimately show ?thesis
      by arith
  qed
  from ok bounds only show ?thesis
    unfolding pin_set_i_width_def by blast
qed

theorem elaborates_only_for_three_pins_witness:
  "PDMCaptureSubtarget_elaborate 3 = Inr (6, [0, 3, 1, 4, 2, 5])
   \<and> (5 :: nat) \<in> set permutation_indices \<and> (5 :: nat) < 2 * pin_set_i_width
   \<and> PDMCaptureSubtarget_elaborate 2 = Inl IndexError
   \<and> PDMCaptureSubtarget_elaborate 4 = Inl AssertionError"
proof -
  have "PDMCaptureSubtarget_elaborate 2 = Inl IndexError"
      "PDMCaptureSubtarget_elaborate 4 = Inl AssertionError"
    by (simp_all add: PDMCaptureSubtarget_elaborate_def FIFOStreamer_init_def
        permutation_indices_def signal_index_def)
  then show ?thesis
    using elaborates_only_for_three_pins [of 3]
    by (simp add: permutation_indices_def pin_set_i_width_def)
qed

section \<open>The host consumer\<close>

lemma f_write_fields:
  "writes (snd (f_write dev s bs)) = writes s @ [bs]"
  "log (snd (f_write dev s bs)) = log s"
  "close_calls (snd (f_write dev s bs)) = close_calls s"
  "args_file_open (snd (f_write dev s bs)) = args_file_open s"
  "total_read (snd (f_write dev s bs)) = total_read s"
  "buffer (snd (f_write dev s bs)) = buffer s"
  by (simp_all add: f_write_def split: io_outcome.splits)

lemma f_write_returns:
  "is_Returns (on_write dev (length (writes s))) \<Longrightarrow> fst (f_write dev s bs) = None"
  by (cases "on_write dev (length (writes s))") (simp_all add: f_write_def)

lemma f_write_stored:
  assumes "fst (f_write dev s bs) = None" and "disk s @ pending s = w"
  shows "disk (snd (f_write dev s bs)) @ pending (snd (f_write dev s bs)) = w @ bs"
proof (cases "on_write dev (length (writes s))")
  case (Returns n)
  have "disk s @ take (length (pending s @ bs) - n) (pending s @ bs)
      @ drop (length (pending s @ bs) - n) (pending s @ bs) = (disk s @ pending s) @ bs"
    by (simp only: append_take_drop_id append_assoc)
  with Returns assms(2) show ?thesis
    by (simp add: f_write_def del: take_append drop_append length_append)
next
  case (Raises a f)
  with assms(1) show ?thesis
    by (simp add: f_write_def)
qed

lemma f_write_prefix:
  assumes "disk s @ pending s = w"
  shows "prefix (disk (snd (f_write dev s bs)) @ pending (snd (f_write dev s bs))) (w @ bs)"
proof (cases "on_write dev (length (writes s))")
  case (Returns n)
  then have "fst (f_write dev s bs) = None"
    by (simp add: f_write_def)
  from f_write_stored [OF this assms] show ?thesis
    by simp
next
  case (Raises a f)
  have "disk s @ take f (pending s @ take a bs) @ drop f (pending s @ take a bs)
      = (disk s @ pending s) @ take a bs"
    by (simp only: append_take_drop_id append_assoc)
  moreover have "prefix ((disk s @ pending s) @ take a bs) ((disk s @ pending s) @ bs)"
    by (simp only: same_prefix_prefix take_is_prefix)
  ultimately show ?thesis
    using Raises
    by (simp add: f_write_def assms [symmetric] del: take_append drop_append length_append)
qed

lemma f_close_fields:
  "writes (snd (f_close dev s)) = writes s"
  "log (snd (f_close dev s)) = log s"
  "close_calls (snd (f_close dev s)) = Suc (close_calls s)"
  "args_file_open (snd (f_close dev s)) = args_file_open s"
  "total_read (snd (f_close dev s)) = total_read s"
  "buffer (snd (f_close dev s)) = buffer s"
  "pending (snd (f_close dev s)) = []"
  by (simp_all add: f_close_def split: io_outcome.splits)

lemma f_close_prefix: "prefix (disk (snd (f_close dev s))) (disk s @ pending s)"
  by (simp add: f_close_def take_is_prefix split: io_outcome.splits)

lemma f_close_returns:
  "is_Returns (on_close dev) \<Longrightarrow>
     fst (f_close dev s) = None \<and> disk (snd (f_close dev s)) = disk s @ pending s"
  by (cases "on_close dev") (simp_all add: f_close_def)

lemma consume_Chunk_empty: "consume dev (Chunk [] # rs) s = consume dev rs s"
  by simp

declare consume.simps(3) [simp del]

lemma consume_Chunk_sentinel:
  "0xff \<in> set d \<Longrightarrow>
     consume dev (Chunk d # rs) s
       = Some (None, s\<lparr>total_read := total_read s + length d,
                        log := log s @ [Error_FIFO_overrun], overrun := True\<rparr>)"
  by (auto simp: consume.simps(3) Let_def)

lemma consume_Chunk_small:
  "d \<noteq> [] \<Longrightarrow> 0xff \<notin> set d \<Longrightarrow> \<not> length (buffer s @ d) > flush_threshold \<Longrightarrow>
     consume dev (Chunk d # rs) s
       = consume dev rs (s\<lparr>total_read := total_read s + length d, buffer := buffer s @ d\<rparr>)"
  by (simp add: consume.simps(3) Let_def)

lemma consume_Chunk_flush:
  "d \<noteq> [] \<Longrightarrow> 0xff \<notin> set d \<Longrightarrow> length (buffer s @ d) > flush_threshold \<Longrightarrow>
     consume dev (Chunk d # rs) s
       = (case fst (f_write dev (s\<lparr>total_read := total_read s + length d,
                                    buffer := buffer s @ d\<rparr>) (buffer s @ d)) of
            Some e \<Rightarrow>
              Some (Some e, snd (f_write dev (s\<lparr>total_read := total_read s + length d,
                                    buffer := buffer s @ d\<rparr>) (buffer s @ d)))
          | None \<Rightarrow>
              consume dev rs
                ((snd (f_write dev (s\<lparr>total_read := total_read s + length d,
                                    buffer := buffer s @ d\<rparr>) (buffer s @ d)))\<lparr>buffer := []\<rparr>))"
  by (simp add: consume.simps(3) Let_def cong: option.case_cong)

lemma consume_inv:
  "consume dev rs s = Some (e, s') \<Longrightarrow> disk s @ pending s = concat (writes s) \<Longrightarrow>
     prefix (concat (writes s')) (concat (writes s) @ buffer s @ concat (accepted rs))
     \<and> prefix (disk s' @ pending s') (concat (writes s'))
     \<and> (e = None \<longrightarrow>
          concat (writes s') @ buffer s' = concat (writes s) @ buffer s @ concat (accepted rs)
          \<and> disk s' @ pending s' = concat (writes s'))
     \<and> log s' = log s @ (if e = None then [Error_FIFO_overrun] else [])
     \<and> close_calls s' = close_calls s \<and> args_file_open s' = args_file_open s"
proof (induction rs arbitrary: s)
  case Nil
  then show ?case by simp
next
  case (Cons r rs)
  show ?case
  proof (cases r)
    case (ReadRaises x)
    with Cons.prems show ?thesis
      by auto
  next
    case (Chunk d)
    show ?thesis
    proof (cases "d = []")
      case True
      with Chunk Cons.prems Cons.IH [of s] show ?thesis
        by (simp add: consume_Chunk_empty)
    next
      case nonempty: False
      show ?thesis
      proof (cases "0xff \<in> set d")
        case True
        with Chunk Cons.prems show ?thesis
          by (auto simp: consume_Chunk_sentinel)
      next
        case clean: False
        let ?s2 = "s\<lparr>total_read := total_read s + length d, buffer := buffer s @ d\<rparr>"
        show ?thesis
        proof (cases "length (buffer s @ d) > flush_threshold")
          case under: False
          with Chunk nonempty clean Cons.prems(1)
          have "consume dev rs ?s2 = Some (e, s')"
            by (simp add: consume_Chunk_small)
          from Cons.IH [OF this] Cons.prems(2) Chunk clean show ?thesis
            by simp
        next
          case over: True
          let ?w = "f_write dev ?s2 (buffer s @ d)"
          have stored: "prefix (disk (snd ?w) @ pending (snd ?w))
              (concat (writes s) @ buffer s @ d)"
            using f_write_prefix [of ?s2 "concat (writes s)" dev "buffer s @ d"] Cons.prems(2)
            by simp
          show ?thesis
          proof (cases "fst ?w")
            case (Some x)
            with Chunk nonempty clean over Cons.prems(1)
            have "e = Some x" "s' = snd ?w"
              by (simp_all add: consume_Chunk_flush)
            with stored Chunk clean show ?thesis
              by (simp add: f_write_fields)
          next
            case None
            let ?s3 = "(snd ?w)\<lparr>buffer := []\<rparr>"
            from None Chunk nonempty clean over Cons.prems(1)
            have run: "consume dev rs ?s3 = Some (e, s')"
              by (simp add: consume_Chunk_flush)
            have "disk ?s3 @ pending ?s3 = concat (writes ?s3)"
              using f_write_stored [OF None, of "concat (writes s)"] Cons.prems(2)
              by (simp add: f_write_fields)
            from Cons.IH [OF run this] Chunk clean show ?thesis
              by (simp add: f_write_fields)
          qed
        qed
      qed
    qed
  qed
qed

lemma consume_returns:
  "\<exists>r\<in>set rs. (\<exists>x. r = ReadRaises x) \<or> (\<exists>d. r = Chunk d \<and> 0xff \<in> set d) \<Longrightarrow>
     consume dev rs s \<noteq> None"
proof (induction rs arbitrary: s)
  case Nil
  then show ?case by simp
next
  case (Cons r rs)
  show ?case
  proof (cases r)
    case (ReadRaises x)
    then show ?thesis by simp
  next
    case (Chunk d)
    show ?thesis
    proof (cases "0xff \<in> set d")
      case True
      with Chunk show ?thesis
        by (simp add: consume_Chunk_sentinel)
    next
      case clean: False
      with Chunk Cons.prems
      have later: "\<exists>r\<in>set rs. (\<exists>x. r = ReadRaises x) \<or> (\<exists>d. r = Chunk d \<and> 0xff \<in> set d)"
        by auto
      show ?thesis
      proof (cases "d = []")
        case True
        with Chunk Cons.IH [OF later, of s] show ?thesis
          by (simp add: consume_Chunk_empty)
      next
        case nonempty: False
        show ?thesis
        proof (cases "length (buffer s @ d) > flush_threshold")
          case False
          with Chunk nonempty clean Cons.IH [OF later] show ?thesis
            by (simp add: consume_Chunk_small)
        next
          case True
          with Chunk nonempty clean Cons.IH [OF later] show ?thesis
            by (simp add: consume_Chunk_flush split: option.splits)
        qed
      qed
    qed
  qed
qed

lemma consume_accepts:
  assumes "\<forall>k. is_Returns (on_write dev k)" and "\<forall>c\<in>set pre. 0xff \<notin> set c"
  shows "\<exists>s'. consume dev (map Chunk pre @ rest) s = consume dev rest s'
    \<and> concat (writes s') @ buffer s' = concat (writes s) @ buffer s @ concat pre
    \<and> (disk s @ pending s = concat (writes s) \<longrightarrow> disk s' @ pending s' = concat (writes s'))
    \<and> log s' = log s \<and> close_calls s' = close_calls s
    \<and> args_file_open s' = args_file_open s
    \<and> total_read s' = total_read s + length (concat pre)"
  using assms(2)
proof (induction pre arbitrary: s)
  case Nil
  show ?case by (intro exI [of _ s]) simp
next
  case (Cons c pre)
  from Cons.prems have clean: "0xff \<notin> set c" and rest: "\<forall>c\<in>set pre. 0xff \<notin> set c"
    by simp_all
  let ?s2 = "s\<lparr>total_read := total_read s + length c, buffer := buffer s @ c\<rparr>"
  let ?w = "f_write dev ?s2 (buffer s @ c)"
  let ?s3 = "(snd ?w)\<lparr>buffer := []\<rparr>"
  have "\<exists>t. consume dev (Chunk c # map Chunk pre @ rest) s
        = consume dev (map Chunk pre @ rest) t
      \<and> concat (writes t) @ buffer t = concat (writes s) @ buffer s @ c
      \<and> (disk s @ pending s = concat (writes s) \<longrightarrow> disk t @ pending t = concat (writes t))
      \<and> log t = log s \<and> close_calls t = close_calls s
      \<and> args_file_open t = args_file_open s
      \<and> total_read t = total_read s + length c"
  proof (cases "c = []")
    case True
    then show ?thesis
      by (intro exI [of _ s]) (simp add: consume_Chunk_empty)
  next
    case nonempty: False
    show ?thesis
    proof (cases "length (buffer s @ c) > flush_threshold")
      case True
      have ok: "fst ?w = None"
        using assms(1) by (simp add: f_write_returns)
      with True nonempty clean
      have "consume dev (Chunk c # map Chunk pre @ rest) s
          = consume dev (map Chunk pre @ rest) ?s3"
        by (simp add: consume_Chunk_flush)
      moreover have "disk s @ pending s = concat (writes s) \<longrightarrow>
          disk (snd ?w) @ pending (snd ?w) = concat (writes s) @ buffer s @ c"
        using f_write_stored [OF ok, of "concat (writes s)"] by simp
      ultimately show ?thesis
        by (intro exI [of _ ?s3]) (simp add: f_write_fields)
    next
      case False
      with nonempty clean show ?thesis
        by (intro exI [of _ ?s2]) (simp add: consume_Chunk_small)
    qed
  qed
  then obtain t where t: "consume dev (Chunk c # map Chunk pre @ rest) s
        = consume dev (map Chunk pre @ rest) t"
      "concat (writes t) @ buffer t = concat (writes s) @ buffer s @ c"
      "disk s @ pending s = concat (writes s) \<longrightarrow> disk t @ pending t = concat (writes t)"
      "log t = log s" "close_calls t = close_calls s"
      "args_file_open t = args_file_open s"
      "total_read t = total_read s + length c"
    by blast
  from Cons.IH [OF rest, of t] obtain s' where
      "consume dev (map Chunk pre @ rest) t = consume dev rest s'"
      "concat (writes s') @ buffer s' = concat (writes t) @ buffer t @ concat pre"
      "disk t @ pending t = concat (writes t) \<longrightarrow> disk s' @ pending s' = concat (writes s')"
      "log s' = log t" "close_calls s' = close_calls t"
      "args_file_open s' = args_file_open t"
      "total_read s' = total_read t + length (concat pre)"
    by blast
  with t show ?case
    by (intro exI [of _ s']) simp
qed

lemma accepted_before_sentinel:
  "\<forall>c\<in>set pre. 0xff \<notin> set c \<Longrightarrow> 0xff \<in> set d \<Longrightarrow>
     accepted (map Chunk pre @ Chunk d # post) = pre"
  by (induction pre) simp_all

lemma try_body_inv:
  assumes "try_body dev rs s = Some (e, s')" and "disk s = []" and "pending s = []"
    and "writes s = []"
  shows "prefix (concat (writes s')) (concat (accepted rs))
    \<and> prefix (disk s' @ pending s') (concat (writes s'))
    \<and> close_calls s' = close_calls s \<and> args_file_open s' = args_file_open s"
proof -
  let ?s0 = "s\<lparr>overrun := False, buffer := []\<rparr>"
  from assms(1) obtain e1 s1 where loop: "consume dev rs ?s0 = Some (e1, s1)"
    by (auto simp: try_body_def split: option.splits)
  from consume_inv [OF loop] assms(2-4)
  have inv: "prefix (concat (writes s1)) (concat (accepted rs))"
      "prefix (disk s1 @ pending s1) (concat (writes s1))"
      "e1 = None \<longrightarrow> concat (writes s1) @ buffer s1 = concat (accepted rs)
         \<and> disk s1 @ pending s1 = concat (writes s1)"
      "close_calls s1 = close_calls s" "args_file_open s1 = args_file_open s"
    by simp_all
  show ?thesis
  proof (cases e1)
    case (Some x)
    with assms(1) loop have "s' = s1"
      by (simp add: try_body_def)
    with inv show ?thesis
      by simp
  next
    case None
    show ?thesis
    proof (cases "length (buffer s1) > 0")
      case False
      with assms(1) loop None have "s' = s1"
        by (simp add: try_body_def)
      with inv show ?thesis
        by simp
    next
      case True
      let ?w = "f_write dev s1 (buffer s1)"
      from assms(1) loop None True
      have s': "writes s' = writes (snd ?w)" "disk s' = disk (snd ?w)"
          "pending s' = pending (snd ?w)" "close_calls s' = close_calls (snd ?w)"
          "args_file_open s' = args_file_open (snd ?w)"
        by (auto simp: try_body_def split: option.splits)
      have "prefix (disk (snd ?w) @ pending (snd ?w)) (concat (writes (snd ?w)))"
        using f_write_prefix [of s1 "concat (writes s1)" dev "buffer s1"] inv(3) None
        by (simp add: f_write_fields)
      with s' inv None show ?thesis
        by (simp add: f_write_fields)
    qed
  qed
qed

lemma interact_inv:
  assumes "interact dev rs = Some (x, s)"
  shows "prefix (concat (writes s)) (concat (accepted rs))
    \<and> prefix (disk s) (concat (writes s))"
proof (cases "open_ok dev")
  case False
  with assms show ?thesis
    by (auto simp: interact_def host_start_def)
next
  case True
  let ?s0 = "host_start\<lparr>log := log host_start @ [Info_starting_capture]\<rparr>"
  from True assms obtain e1 s1 where body: "try_body dev rs ?s0 = Some (e1, s1)"
      and s: "s = snd (finally_close dev (except_Exception (e1, s1)))"
    by (auto simp: interact_def split: option.splits)
  from try_body_inv [OF body]
  have inv: "prefix (concat (writes s1)) (concat (accepted rs))"
      "prefix (disk s1 @ pending s1) (concat (writes s1))"
    by (simp_all add: host_start_def)
  let ?s2 = "snd (except_Exception (e1, s1))"
  have s2: "writes ?s2 = writes s1" "disk ?s2 = disk s1" "pending ?s2 = pending s1"
    by (simp_all add: except_Exception_def split: option.splits)
  have "s = snd (f_close dev ?s2)"
    using s by (simp add: finally_close_def split: option.splits)
  then have "writes s = writes s1" "prefix (disk s) (disk s1 @ pending s1)"
    using f_close_prefix [of dev ?s2] s2 by (simp_all add: f_close_fields)
  with inv show ?thesis
    using prefix_order.trans by auto
qed


text \<open>
  Whenever \<open>interact\<close> returns after a successful \<open>open\<close>, \<open>f.close\<close> was called exactly
  once; \<open>args.file\<close> is never closed. \<open>interact\<close> returns as soon as a read raises or a
  chunk carries the sentinel; it never does while the chunks are clean and the writes
  return.
\<close>

lemma interact_closes_once:
  assumes "interact dev rs = Some (x, s)" and "open_ok dev"
  shows "close_calls s = 1 \<and> args_file_open s"
proof -
  let ?s0 = "host_start\<lparr>log := log host_start @ [Info_starting_capture]\<rparr>"
  from assms obtain e1 s1 where body: "try_body dev rs ?s0 = Some (e1, s1)"
      and s: "s = snd (finally_close dev (except_Exception (e1, s1)))"
    by (auto simp: interact_def split: option.splits)
  from try_body_inv [OF body]
  have "close_calls s1 = 0" "args_file_open s1"
    by (simp_all add: host_start_def)
  moreover have "close_calls (snd (except_Exception (e1, s1))) = close_calls s1"
      "args_file_open (snd (except_Exception (e1, s1))) = args_file_open s1"
    by (simp_all add: except_Exception_def split: option.splits)
  moreover have "s = snd (f_close dev (snd (except_Exception (e1, s1))))"
    using s by (simp add: finally_close_def split: option.splits)
  ultimately show ?thesis
    by (simp add: f_close_fields)
qed

lemma interact_returns:
  assumes "\<exists>r\<in>set rs. (\<exists>x. r = ReadRaises x) \<or> (\<exists>d. r = Chunk d \<and> 0xff \<in> set d)"
  shows "interact dev rs \<noteq> None"
proof -
  let ?s0 = "host_start\<lparr>log := log host_start @ [Info_starting_capture]\<rparr>"
  from consume_returns [OF assms]
  obtain e s1 where "consume dev rs (?s0\<lparr>overrun := False, buffer := []\<rparr>) = Some (e, s1)"
    by fastforce
  then have "try_body dev rs ?s0 \<noteq> None"
    by (cases e) (auto simp: try_body_def split: option.splits)
  then show ?thesis
    by (auto simp: interact_def)
qed

lemma consume_blocks:
  "\<forall>r\<in>set rs. \<exists>d. r = Chunk d \<and> 0xff \<notin> set d \<Longrightarrow> \<forall>k. is_Returns (on_write dev k) \<Longrightarrow>
     consume dev rs s = None"
proof (induction rs arbitrary: s)
  case Nil
  show ?case by simp
next
  case (Cons r rs)
  then obtain d where d: "r = Chunk d" "0xff \<notin> set d"
    by auto
  from Cons have ih: "consume dev rs t = None" for t
    by simp
  show ?case
  proof (cases "d = []")
    case True
    with d ih show ?thesis
      by (simp add: consume_Chunk_empty)
  next
    case nonempty: False
    show ?thesis
    proof (cases "length (buffer s @ d) > flush_threshold")
      case False
      with d nonempty ih show ?thesis
        by (simp add: consume_Chunk_small)
    next
      case True
      with d nonempty ih Cons.prems(2) show ?thesis
        by (simp add: consume_Chunk_flush f_write_returns)
    qed
  qed
qed

lemma interact_blocks:
  assumes "\<forall>r\<in>set rs. \<exists>d. r = Chunk d \<and> 0xff \<notin> set d" and "\<forall>k. is_Returns (on_write dev k)"
    and "open_ok dev"
  shows "interact dev rs = None"
  using consume_blocks [OF assms(1,2)] assms(3) by (simp add: interact_def try_body_def)

lemmas host_defs =
  interact_def try_body_def host_start_def f_write_def f_close_def except_Exception_def
  finally_close_def is_Exception_def flush_threshold_def regular_file_def full_device_def
  consume.simps(3)

text \<open>
  C1, as stated, fails: on the chunks \<open>b""\<close>, \<open>b"\x01\x02"\<close>, \<open>b"\x03\xff\x04"\<close>,
  \<open>b"\x05"\<close>, with a file on which every call succeeds, the file receives 0x01 0x02
  only. The chunk with the sentinel is dropped whole, the byte 0x03 before the sentinel
  included.
\<close>

theorem sentinel_prefix_counterexample:
  "interact regular_file [Chunk [], Chunk [1, 2], Chunk [3, 0xff, 4], Chunk [5]]
     = Some (None,
         \<lparr>disk = [1, 2], pending = [], writes = [[1, 2]], close_calls = 1,
          args_file_open = True, log = [Info_starting_capture, Error_FIFO_overrun],
          total_read = 5, overrun = True, buffer = []\<rparr>)
   \<and> [1, 2] \<noteq> [1, 2, 3 :: 8 word]"
  by (simp add: host_defs)

text \<open>
  C1, amended. When a chunk carries the sentinel and the chunks read before it do not,
  \<open>interact\<close> returns, and whatever the file does, the bytes passed to \<open>f.write\<close> are a
  prefix of the concatenation of the chunks read before that chunk, and the file holds a
  prefix of the bytes passed to \<open>f.write\<close>: no byte of the chunk with the sentinel,
  before or after the sentinel, and no byte of a later chunk is written. When \<open>open\<close>,
  every \<open>write\<close> and \<open>close\<close> succeed, no exception leaves \<open>interact\<close>, the file holds
  exactly that concatenation, the overrun is logged, nothing is read after the chunk with
  the sentinel and the file is closed once. On the chunks of the example the file holds
  0x01 0x02.
\<close>

theorem sentinel_chunk_discarded:
  assumes "\<forall>c\<in>set pre. 0xff \<notin> set c" and "0xff \<in> set d"
  shows "(\<exists>x s. interact dev (map Chunk pre @ Chunk d # post) = Some (x, s)
            \<and> prefix (concat (writes s)) (concat pre)
            \<and> prefix (disk s) (concat (writes s)))
    \<and> (open_ok dev \<and> (\<forall>k. is_Returns (on_write dev k)) \<and> is_Returns (on_close dev) \<longrightarrow>
         (\<exists>t. interact dev (map Chunk pre @ Chunk d # post) = Some (None, t)
            \<and> disk t = concat pre
            \<and> concat (writes t) = concat pre
            \<and> log t = [Info_starting_capture, Error_FIFO_overrun]
            \<and> total_read t = length (concat pre) + length d
            \<and> close_calls t = 1))"
proof (intro conjI impI)
  let ?rs = "map Chunk pre @ Chunk d # post"
  have "\<exists>r\<in>set ?rs. (\<exists>x. r = ReadRaises x) \<or> (\<exists>d. r = Chunk d \<and> 0xff \<in> set d)"
    using assms(2) by auto
  from interact_returns [OF this, of dev]
  obtain x s where ret: "interact dev ?rs = Some (x, s)"
    by fastforce
  from interact_inv [OF ret] accepted_before_sentinel [OF assms, of post]
  have "prefix (concat (writes s)) (concat pre)" "prefix (disk s) (concat (writes s))"
    by simp_all
  with ret show "\<exists>x s. interact dev ?rs = Some (x, s)
      \<and> prefix (concat (writes s)) (concat pre) \<and> prefix (disk s) (concat (writes s))"
    by blast
next
  let ?rs = "map Chunk pre @ Chunk d # post"
  let ?s0 = "host_start\<lparr>log := log host_start @ [Info_starting_capture]\<rparr>"
  let ?start = "?s0\<lparr>overrun := False, buffer := []\<rparr>"
  assume ok: "open_ok dev \<and> (\<forall>k. is_Returns (on_write dev k)) \<and> is_Returns (on_close dev)"
  then have wok: "\<forall>k. is_Returns (on_write dev k)"
    by simp
  from consume_accepts [OF wok assms(1), of "Chunk d # post" ?start]
  obtain s1 where s1: "consume dev ?rs ?start = consume dev (Chunk d # post) s1"
      "concat (writes s1) @ buffer s1 = concat pre"
      "disk s1 @ pending s1 = concat (writes s1)"
      "log s1 = [Info_starting_capture]" "close_calls s1 = 0"
      "total_read s1 = length (concat pre)"
    by (auto simp: host_start_def)
  let ?s2 = "s1\<lparr>total_read := total_read s1 + length d,
      log := log s1 @ [Error_FIFO_overrun], overrun := True\<rparr>"
  have loop: "consume dev ?rs ?start = Some (None, ?s2)"
    using s1(1) assms(2) by (simp add: consume_Chunk_sentinel)
  have "\<exists>t. try_body dev ?rs ?s0 = Some (None, t)
      \<and> disk t @ pending t = concat pre \<and> concat (writes t) = concat pre
      \<and> log t = [Info_starting_capture, Error_FIFO_overrun]
      \<and> total_read t = length (concat pre) + length d \<and> close_calls t = 0"
  proof (cases "length (buffer s1) > 0")
    case False
    with loop have "try_body dev ?rs ?s0 = Some (None, ?s2)"
      by (simp add: try_body_def)
    with s1 False show ?thesis
      by (intro exI [of _ ?s2]) simp
  next
    case True
    let ?w = "f_write dev ?s2 (buffer s1)"
    have none: "fst ?w = None"
      using wok by (simp add: f_write_returns)
    with loop True have "try_body dev ?rs ?s0 = Some (None, (snd ?w)\<lparr>buffer := []\<rparr>)"
      by (simp add: try_body_def)
    moreover have "disk (snd ?w) @ pending (snd ?w) = concat pre"
      using f_write_stored [OF none, of "concat (writes s1)"] s1(2,3) by simp
    ultimately show ?thesis
      using s1 by (intro exI [of _ "(snd ?w)\<lparr>buffer := []\<rparr>"]) (simp add: f_write_fields)
  qed
  then obtain t where t: "try_body dev ?rs ?s0 = Some (None, t)"
      "disk t @ pending t = concat pre" "concat (writes t) = concat pre"
      "log t = [Info_starting_capture, Error_FIFO_overrun]"
      "total_read t = length (concat pre) + length d" "close_calls t = 0"
    by blast
  from ok have cok: "fst (f_close dev t) = None" "disk (snd (f_close dev t)) = disk t @ pending t"
    using f_close_returns [of dev t] by simp_all
  have "interact dev ?rs = Some (None, snd (f_close dev t))"
    using ok t(1) cok(1) by (simp add: interact_def except_Exception_def finally_close_def)
  with t cok(2)
  show "\<exists>t. interact dev ?rs = Some (None, t)
      \<and> disk t = concat pre \<and> concat (writes t) = concat pre
      \<and> log t = [Info_starting_capture, Error_FIFO_overrun]
      \<and> total_read t = length (concat pre) + length d \<and> close_calls t = 1"
    by (intro exI [of _ "snd (f_close dev t)"]) (simp add: f_close_fields)
qed

theorem sentinel_chunk_discarded_witness:
  "0xff \<notin> set ([] :: 8 word list) \<and> 0xff \<notin> set [1, 2 :: 8 word]
   \<and> 0xff \<in> set [3, 0xff, 4 :: 8 word]
   \<and> open_ok regular_file \<and> is_Returns (on_close regular_file)
   \<and> (\<exists>t. interact regular_file [Chunk [], Chunk [1, 2], Chunk [3, 0xff, 4], Chunk [5]]
            = Some (None, t)
        \<and> disk t = [1, 2]
        \<and> log t = [Info_starting_capture, Error_FIFO_overrun]
        \<and> total_read t = 5 \<and> close_calls t = 1)"
proof -
  have h: "\<forall>c\<in>set [[], [1, 2 :: 8 word]]. 0xff \<notin> set c" "0xff \<in> set [3, 0xff, 4 :: 8 word]"
    by simp_all
  have ok: "open_ok regular_file \<and> (\<forall>k. is_Returns (on_write regular_file k))
      \<and> is_Returns (on_close regular_file)"
    by (simp add: regular_file_def)
  from ok sentinel_chunk_discarded [OF h, of regular_file "[Chunk [5]]"]
  obtain t where t:
      "interact regular_file [Chunk [], Chunk [1, 2], Chunk [3, 0xff, 4], Chunk [5]]
         = Some (None, t)"
      "disk t = [1, 2]" "log t = [Info_starting_capture, Error_FIFO_overrun]"
      "total_read t = length (concat [[], [1, 2 :: 8 word]]) + length [3, 0xff, 4 :: 8 word]"
      "close_calls t = 1"
    by auto
  from t(4) have "total_read t = 5"
    by simp
  with t ok show ?thesis
    by (intro conjI exI [of _ t]) simp_all
qed

text \<open>
  C6. On loop exit for any reason a non-empty buffer is to be written once, so that the
  file holds all the chunks accepted as data. The code does so when the loop is left by
  an overrun, and does not when it is left by an exception: after the chunk
  \<open>b"\x01\x02"\<close> was accepted, a read that raises goes to the handler, which logs
  "Error writing to file", and the file, on which every call succeeds, is closed empty
  with the two bytes still in the buffer. With a chunk carrying the sentinel in place of
  the failing read the same two bytes reach the file.
\<close>

theorem read_failure_loses_buffer:
  "interact regular_file [Chunk [1, 2], ReadRaises TransportError]
     = Some (None,
         \<lparr>disk = [], pending = [], writes = [], close_calls = 1, args_file_open = True,
          log = [Info_starting_capture, Error_writing_to_file TransportError],
          total_read = 2, overrun = False, buffer = [1, 2]\<rparr>)
   \<and> concat (accepted [Chunk [1, 2], ReadRaises TransportError]) = [1, 2]
   \<and> interact regular_file [Chunk [1, 2], Chunk [0xff]]
     = Some (None,
         \<lparr>disk = [1, 2], pending = [], writes = [[1, 2]], close_calls = 1,
          args_file_open = True, log = [Info_starting_capture, Error_FIFO_overrun],
          total_read = 3, overrun = True, buffer = []\<rparr>)"
  by (simp add: host_defs)

text \<open>
  C7. An exception raised while writing is to be logged and not to leave \<open>interact\<close>, and
  no handle is to leak. On a device without space the last \<open>f.write\<close> returns with its
  byte in the writer's buffer, the flush in \<open>f.close()\<close> fails inside the \<open>finally\<close>
  clause, and the OSError leaves \<open>interact\<close> with no error in the log. The file is closed
  once, the byte is lost, and the handle \<open>args.file\<close> is still open when \<open>interact\<close>
  ends.
\<close>

theorem close_error_escapes_unlogged:
  "interact full_device [Chunk [1], Chunk [0xff]]
     = Some (Some OSError,
         \<lparr>disk = [], pending = [], writes = [[1]], close_calls = 1, args_file_open = True,
          log = [Info_starting_capture, Error_FIFO_overrun],
          total_read = 2, overrun = True, buffer = []\<rparr>)
   \<and> on_write full_device 0 = Returns 8192"
  by (simp add: host_defs)

end
